theory Spec2Isabelle
  imports Main "HOL-Library.Sublist"
begin

section \<open>Python strings and the string operations the program uses\<close>

text \<open>
  A Python \<open>str\<close> is a sequence of Unicode code points and \<open>len\<close> counts code points.
  A text is therefore modelled as a list of code points (natural numbers), and the ASCII
  literals of the source are written \<open>u ''...''\<close>.
\<close>

type_synonym ustring = "nat list"

abbreviation (input) u :: "string \<Rightarrow> ustring" where
  "u s \<equiv> map of_char s"

text \<open>
  \<open>s.find(sub, start)\<close>: the lowest index \<open>i \<ge> start\<close> with \<open>s[i:i+len(sub)] = sub\<close>, or
  \<open>-1\<close>. A negative \<open>start\<close> counts from the end and is clipped at 0, as in Python;
  a \<open>start\<close> beyond the end gives \<open>-1\<close>.
\<close>

fun find_from :: "'a list \<Rightarrow> 'a list \<Rightarrow> nat \<Rightarrow> int" where
  "find_from sub [] i = (if sub = [] then int i else -1)"
| "find_from sub (x # xs) i =
     (if prefix sub (x # xs) then int i else find_from sub xs (Suc i))"

definition str_find :: "'a list \<Rightarrow> 'a list \<Rightarrow> int \<Rightarrow> int" where
  "str_find s sub start =
     (let n = int (length s);
          st = (if start < 0 then max 0 (start + n) else start)
      in if n < st then -1 else find_from sub (drop (nat st) s) (nat st))"

text \<open>\<open>sub in s\<close>.\<close>

definition str_contains :: "'a list \<Rightarrow> 'a list \<Rightarrow> bool" where
  "str_contains s sub = (0 \<le> str_find s sub 0)"

text \<open>
  \<open>s[a:b]\<close> with Python's treatment of negative and out-of-range bounds.
\<close>

definition py_slice :: "'a list \<Rightarrow> int \<Rightarrow> int \<Rightarrow> 'a list" where
  "py_slice s a b =
     (let n = int (length s);
          a' = (if a < 0 then max 0 (a + n) else min a n);
          b' = (if b < 0 then max 0 (b + n) else min b n)
      in take (nat (b' - a')) (drop (nat a') s))"

text \<open>
  \<open>s.split(sep)\<close> for a non-empty separator: the pieces between the successive leftmost,
  non-overlapping occurrences of \<open>sep\<close>. (Python raises \<open>ValueError\<close> on an empty separator;
  the program's only separator is the constant \<open><body>\<close>, and the guard \<open>sep = []\<close> below only
  makes the function total.)
\<close>

function split_from :: "'a list \<Rightarrow> 'a list \<Rightarrow> nat \<Rightarrow> 'a list list" where
  "split_from s sep pos =
     (let j = str_find s sep (int pos)
      in if j < 0 \<or> sep = [] then [drop pos s]
         else take (nat j - pos) (drop pos s) # split_from s sep (nat j + length sep))"
  by pat_completeness auto

termination
proof (relation "measure (\<lambda>(s, sep, pos). length s - pos)", goal_cases)
  case 1
  show ?case by simp
next
  case (2 s sep pos j)
  have ff: "0 \<le> find_from sub xs i \<Longrightarrow>
      int i \<le> find_from sub xs i \<and> find_from sub xs i + int (length sub) \<le> int i + int (length xs)"
    for sub :: "'a list" and xs i
  proof (induction xs arbitrary: i)
    case Nil
    then show ?case by (auto split: if_splits)
  next
    case (Cons x xs)
    show ?case
    proof (cases "prefix sub (x # xs)")
      case True
      then show ?thesis using prefix_length_le[OF True] by simp
    next
      case False
      with Cons.prems have "0 \<le> find_from sub xs (Suc i)" by simp
      from Cons.IH[OF this] False show ?thesis by simp
    qed
  qed
  from 2 have j0: "0 \<le> j" and ne: "sep \<noteq> []" by auto
  from 2(1) j0 have le: "int pos \<le> int (length s)"
    by (auto simp: str_find_def Let_def split: if_splits)
  from 2(1) j0 le have "j = find_from sep (drop pos s) pos"
    by (auto simp: str_find_def Let_def split: if_splits)
  with j0 ff[of sep "drop pos s" pos] le
  have "int pos \<le> j" "j + int (length sep) \<le> int (length s)" by auto
  with ne show ?case by (cases sep) auto
qed

declare split_from.simps [simp del]

definition str_split :: "'a list \<Rightarrow> 'a list \<Rightarrow> 'a list list" where
  "str_split s sep = split_from s sep 0"

text \<open>\<open>sep.join(xs)\<close>.\<close>

fun str_join :: "'a list \<Rightarrow> 'a list list \<Rightarrow> 'a list" where
  "str_join sep [] = []"
| "str_join sep [x] = x"
| "str_join sep (x # y # ys) = x @ sep @ str_join sep (y # ys)"

text \<open>
  \<open>s.strip()\<close> removes leading and trailing whitespace; the whitespace code points are those of
  \<open>str.isspace\<close>.
\<close>

definition is_space :: "nat \<Rightarrow> bool" where
  "is_space c =
     ((9 \<le> c \<and> c \<le> 13) \<or> (28 \<le> c \<and> c \<le> 32) \<or> c = 133 \<or> c = 160 \<or> c = 5760 \<or>
      (8192 \<le> c \<and> c \<le> 8202) \<or> c = 8232 \<or> c = 8233 \<or> c = 8239 \<or> c = 8287 \<or> c = 12288)"

definition py_strip :: "ustring \<Rightarrow> ustring" where
  "py_strip s = rev (dropWhile is_space (rev (dropWhile is_space s)))"

text \<open>\<open>str(n)\<close> for a length: the decimal digits.\<close>

fun str_of_nat :: "nat \<Rightarrow> ustring" where
  "str_of_nat n = (if n < 10 then [48 + n] else str_of_nat (n div 10) @ [48 + n mod 10])"

text \<open>The exceptions that a run can raise.\<close>

datatype error =
  FileNotFoundError | IsADirectoryError | PermissionError | UnicodeDecodeError | ValueError

text \<open>
  \<open>html.unescape(s)\<close> returns \<open>s\<close> itself when it holds no \<open>&\<close>, and otherwise substitutes the
  character references. The substitution is the standard library's
  (\<open>_charref.sub(_replace_charref, s)\<close>, with the HTML5 entity table) and is a parameter here.
  It can raise: for a decimal reference it calls \<open>int\<close>, and \<open>int\<close> raises \<open>ValueError\<close> on more
  digits than the interpreter's limit for integer strings. So the parameter returns the text
  or the exception.
\<close>

definition html_unescape :: "(ustring \<Rightarrow> error + ustring) \<Rightarrow> ustring \<Rightarrow> error + ustring" where
  "html_unescape charref_sub s = (if of_char CHR ''&'' \<notin> set s then Inr s else charref_sub s)"

text \<open>
  The substitution under the default limit of 4300 digits (CPython 3.11): the pattern of the
  library matches every \<open>&#\<close> that a decimal digit follows, together with all the digits
  \<open>0\<close> to \<open>9\<close> that follow, and the conversion of more than 4300 of them raises. Where the
  library returns, its result is the parameter \<open>subst\<close>.
\<close>

definition is_digit :: "nat \<Rightarrow> bool" where
  "is_digit c = (48 \<le> c \<and> c \<le> 57)"

fun long_decimal_reference :: "ustring \<Rightarrow> bool" where
  "long_decimal_reference [] = False"
| "long_decimal_reference (c # cs) =
     ((c = of_char CHR ''&'' \<and> prefix (u ''#'') cs
         \<and> 4300 < length (takeWhile is_digit (drop 1 cs)))
      \<or> long_decimal_reference cs)"

definition charref_sub_limited :: "(ustring \<Rightarrow> ustring) \<Rightarrow> ustring \<Rightarrow> error + ustring" where
  "charref_sub_limited subst s =
     (if long_decimal_reference s then Inl ValueError else Inr (subst s))"

text \<open>
  \<open>re.findall(pattern, s)\<close> scans \<open>s\<close> from left to right: at each position it tries to match the
  pattern; after a match it collects the result and goes on at the end of the match, otherwise
  it moves one position on. A pattern is given by its matcher, which returns the collected text
  and the length of the match at the head of the text.
\<close>

fun re_findall :: "(ustring \<Rightarrow> (ustring \<times> nat) option) \<Rightarrow> ustring \<Rightarrow> ustring list" where
  "re_findall m [] = []"
| "re_findall m (c # cs) =
     (case m (c # cs) of
        None \<Rightarrow> re_findall m cs
      | Some (g, n) \<Rightarrow> g # re_findall m (drop (n - 1) cs))"

text \<open>
  The pattern \<open>@font-face\{[^}]+\}\<close>: the literal \<open>@font-face{\<close>, at least one code point other
  than \<open>}\<close> (as many as there are), and a \<open>}\<close>. The whole match is collected.
\<close>

definition match_font_face :: "ustring \<Rightarrow> (ustring \<times> nat) option" where
  "match_font_face xs =
     (if \<not> prefix (u ''@font-face{'') xs then None
      else let body = takeWhile (\<lambda>c. c \<noteq> of_char CHR ''}'') (drop 11 xs);
               close = 11 + length body
           in if body = [] \<or> length xs \<le> close then None
              else Some (take (close + 1) xs, close + 1))"

text \<open>
  The pattern \<open><style[^>]*>(.*?)</style>\<close> under \<open>re.DOTALL\<close>: the literal \<open><style\<close>, every code
  point up to the next \<open>>\<close>, that \<open>>\<close>, then the shortest text up to a \<open></style>\<close>. The group
  (the inner text) is collected.
\<close>

definition match_style :: "ustring \<Rightarrow> (ustring \<times> nat) option" where
  "match_style xs =
     (if \<not> prefix (u ''<style'') xs then None
      else let attrs = takeWhile (\<lambda>c. c \<noteq> of_char CHR ''>'') (drop 6 xs);
               inner = 6 + length attrs + 1
           in if length xs < inner then None
              else let k = str_find xs (u ''</style>'') (int inner)
                   in if k < 0 then None
                      else Some (py_slice xs (int inner) k, nat k + 8))"

text \<open>
  A Python \<open>set\<close> of strings offers membership and \<open>add\<close>; the order in which it holds its
  elements depends on the string hash, which differs from one process to the next. The set is
  modelled with that order: a duplicate-free list kept in the order of a hash function \<open>h\<close>,
  a parameter of the run.
\<close>

type_synonym str_hash = "ustring \<Rightarrow> nat"

definition set_add :: "str_hash \<Rightarrow> ustring \<Rightarrow> ustring list \<Rightarrow> ustring list" where
  "set_add h x xs = (if x \<in> set xs then xs else insort_key h x xs)"

section \<open>The program\<close>

subsection \<open>Font faces and styles\<close>

definition font_faces :: "ustring \<Rightarrow> ustring list" where
  "font_faces content = re_findall match_font_face content"

definition style_matches :: "ustring \<Rightarrow> ustring list" where
  "style_matches content = re_findall match_style content"

text \<open>
  The loop over \<open>style_matches\<close>, with its two variables \<open>seen_styles\<close> (a set) and
  \<open>unique_styles\<close> (a list); the result is the final \<open>unique_styles\<close>.
\<close>

fun unique_styles_loop ::
  "str_hash \<Rightarrow> ustring list \<Rightarrow> ustring list \<Rightarrow> ustring list \<Rightarrow> ustring list" where
  "unique_styles_loop h [] seen_styles unique_styles = unique_styles"
| "unique_styles_loop h (style # rest) seen_styles unique_styles =
     (if style \<notin> set seen_styles \<and> 100 < length style
      then unique_styles_loop h rest (set_add h style seen_styles) (unique_styles @ [style])
      else unique_styles_loop h rest seen_styles unique_styles)"

definition unique_styles :: "str_hash \<Rightarrow> ustring list \<Rightarrow> ustring list" where
  "unique_styles h matches = unique_styles_loop h matches [] []"

definition all_styles :: "str_hash \<Rightarrow> ustring \<Rightarrow> ustring" where
  "all_styles h content = str_join (u ''\<newline>'') (unique_styles h (style_matches content))"

subsection \<open>Slides\<close>

definition body_splits :: "ustring \<Rightarrow> ustring list" where
  "body_splits content = str_split content (u ''<body>'')"

text \<open>
  The \<open>while\<close> loop that looks for the closing tag, from its state \<open>pos\<close>, \<open>div_count\<close>; the
  result is the final \<open>container_end\<close>, which stays \<open>-1\<close> when the loop ends at a \<open>break\<close> on a
  missing closing tag or at the end of the text.
\<close>

function scan_divs :: "ustring \<Rightarrow> int \<Rightarrow> int \<Rightarrow> int" where
  "scan_divs slide_html pos div_count =
     (if pos < int (length slide_html) then
        (let next_open = str_find slide_html (u ''<div'') pos;
             next_close = str_find slide_html (u ''</div>'') pos
         in if next_close < 0 then -1
            else if 0 \<le> next_open \<and> next_open < next_close
              then scan_divs slide_html (next_open + 4) (div_count + 1)
            else if div_count = 0 then next_close + 6
            else scan_divs slide_html (next_close + 6) (div_count - 1))
      else -1)"
  by pat_completeness auto

termination
proof (relation "measure (\<lambda>(s, pos, c). nat (int (length s) - pos))", goal_cases)
  case 1
  show ?case by simp
next
  case (2 s pos c no nc)
  have ff: "0 \<le> find_from sub xs i \<Longrightarrow> int i \<le> find_from sub xs i"
    for sub :: ustring and xs i
    by (induction xs arbitrary: i) (fastforce split: if_splits)+
  from 2 have "0 \<le> no" by simp
  with 2(2) ff[of "u ''<div''" "drop (nat pos) s" "nat pos"] 2(1) have "pos \<le> no"
    by (auto simp: str_find_def Let_def split: if_splits)
  with 2(1) show ?case by simp
next
  case (3 s pos c no nc)
  have ff: "0 \<le> find_from sub xs i \<Longrightarrow> int i \<le> find_from sub xs i"
    for sub :: ustring and xs i
    by (induction xs arbitrary: i) (fastforce split: if_splits)+
  from 3 have "0 \<le> nc" by simp
  with 3(3) ff[of "u ''</div>''" "drop (nat pos) s" "nat pos"] 3(1) have "pos \<le> nc"
    by (auto simp: str_find_def Let_def split: if_splits)
  with 3(1) show ?case by simp
qed

declare scan_divs.simps [simp del]

text \<open>
  The body of the loop over the sections: the slide that one section adds to \<open>slides\<close>, if any
  (\<open>None\<close> where the source goes on to the next section without appending), or the exception
  that \<open>html.unescape\<close> raises.
\<close>

definition section_slide ::
  "(ustring \<Rightarrow> error + ustring) \<Rightarrow> ustring \<Rightarrow> error + ustring option" where
  \<open>section_slide charref_sub section =
     (if \<not> str_contains section (u ''slide-container'') then Inr None
      else case html_unescape charref_sub section of
        Inl e \<Rightarrow> Inl e
      | Inr slide_html \<Rightarrow>
          let container_start = str_find slide_html (u ''<div class="slide-container'') 0
          in if container_start < 0 then Inr None
             else let container_end = scan_divs slide_html container_start 0
                  in if container_start < container_end
                     then Inr (Some (py_strip (py_slice slide_html container_start container_end)))
                     else Inr None)\<close>

text \<open>The loop over the sections; nothing catches an exception, which ends the loop.\<close>

fun slides_loop ::
  "(ustring \<Rightarrow> error + ustring) \<Rightarrow> ustring list \<Rightarrow> ustring list \<Rightarrow> error + ustring list" where
  "slides_loop charref_sub [] slides = Inr slides"
| "slides_loop charref_sub (section # rest) slides =
     (case section_slide charref_sub section of
        Inl e \<Rightarrow> Inl e
      | Inr None \<Rightarrow> slides_loop charref_sub rest slides
      | Inr (Some slide_content) \<Rightarrow> slides_loop charref_sub rest (slides @ [slide_content]))"

text \<open>The slides of a document: the loop runs over \<open>body_splits[1:]\<close>.\<close>

definition slides_of :: "(ustring \<Rightarrow> error + ustring) \<Rightarrow> ustring \<Rightarrow> error + ustring list" where
  "slides_of charref_sub content = slides_loop charref_sub (drop 1 (body_splits content)) []"

subsection \<open>The output document\<close>

text \<open>
  The three fixed parts of the document shell, around the font faces and the styles. The title
  and the label of the print button are given by their code points.
\<close>

definition shell_head :: ustring where
  \<open>shell_head =
     u ''<!DOCTYPE html>\<newline>'' @
     u ''<html lang="uk">\<newline>'' @
     u ''<head>\<newline>'' @
     u ''    <meta charset="UTF-8">\<newline>'' @
     u ''    <meta name="viewport" content="width=1280, initial-scale=1.0">\<newline>'' @
     u ''    <title>'' @
     [8211, 234, 8211, 8747, 8211, 8734, 8211, 165, 8211, 181, 8211, 186, 8212, 241, 8212, 225] @
     [8211, 937, 8211, 8719, 8211, 960] @
     u '' '' @
     [8211, 248, 8211, 170, 8211, 8734, 8211, 8805, 8212, 241, 8211, 8734, 8212, 199] @
     u '' - '' @
     [8211, 239, 8211, 8747, 8212, 197, 8211, 248, 8211, 230, 8212, 196, 8212, 199] @
     u '' '' @
     [8212, 197, 8211, 170, 8211, 8734, 8211, 960, 8211, 165, 8212, 241, 8211, 8804] @
     u ''</title>\<newline>'' @
     u ''    \<newline>'' @
     u ''    <style>\<newline>'' @
     u ''        /* Font faces */\<newline>'' @
     u ''        ''\<close>

definition shell_between :: ustring where
  \<open>shell_between =
     u ''\<newline>'' @
     u ''        \<newline>'' @
     u ''        /* All extracted styles */\<newline>'' @
     u ''        ''\<close>

definition shell_rest :: ustring where
  \<open>shell_rest =
     u ''\<newline>'' @
     u ''        \<newline>'' @
     u ''        /* Print styles */\<newline>'' @
     u ''        @page {\<newline>'' @
     u ''            size: 1280px 720px landscape;\<newline>'' @
     u ''            margin: 0;\<newline>'' @
     u ''        }\<newline>'' @
     u ''        \<newline>'' @
     u ''        body {\<newline>'' @
     u ''            margin: 0;\<newline>'' @
     u ''            padding: 0;\<newline>'' @
     u ''            background: #000;\<newline>'' @
     u ''            -webkit-print-color-adjust: exact !important;\<newline>'' @
     u ''            print-color-adjust: exact !important;\<newline>'' @
     u ''            color-adjust: exact !important;\<newline>'' @
     u ''        }\<newline>'' @
     u ''        \<newline>'' @
     u ''        .slide {\<newline>'' @
     u ''            width: 1280px;\<newline>'' @
     u ''            height: 720px;\<newline>'' @
     u ''            page-break-after: always;\<newline>'' @
     u ''            break-after: page;\<newline>'' @
     u ''            page-break-inside: avoid;\<newline>'' @
     u ''            break-inside: avoid;\<newline>'' @
     u ''            position: relative;\<newline>'' @
     u ''            overflow: hidden;\<newline>'' @
     u ''        }\<newline>'' @
     u ''        \<newline>'' @
     u ''        .slide:last-child {\<newline>'' @
     u ''            page-break-after: auto;\<newline>'' @
     u ''        }\<newline>'' @
     u ''        \<newline>'' @
     u ''        @media print {\<newline>'' @
     u ''            .print-btn { \<newline>'' @
     u ''                display: none !important; \<newline>'' @
     u ''            }\<newline>'' @
     u ''            body { \<newline>'' @
     u ''                -webkit-print-color-adjust: exact !important;\<newline>'' @
     u ''                print-color-adjust: exact !important;\<newline>'' @
     u ''                color-adjust: exact !important;\<newline>'' @
     u ''            }\<newline>'' @
     u ''        }\<newline>'' @
     u ''        \<newline>'' @
     u ''        .print-btn {\<newline>'' @
     u ''            position: fixed;\<newline>'' @
     u ''            top: 20px;\<newline>'' @
     u ''            right: 20px;\<newline>'' @
     u ''            padding: 15px 30px;\<newline>'' @
     u ''            background: #4CAF50;\<newline>'' @
     u ''            color: white;\<newline>'' @
     u ''            border: none;\<newline>'' @
     u ''            border-radius: 8px;\<newline>'' @
     u ''            font-size: 18px;\<newline>'' @
     u ''            cursor: pointer;\<newline>'' @
     u ''            z-index: 9999;\<newline>'' @
     u ''            box-shadow: 0 4px 15px rgba(0,0,0,0.3);\<newline>'' @
     u ''        }\<newline>'' @
     u ''        \<newline>'' @
     u ''        .print-btn:hover {\<newline>'' @
     u ''            background: #45a049;\<newline>'' @
     u ''        }\<newline>'' @
     u ''    </style>\<newline>'' @
     u ''</head>\<newline>'' @
     u ''<body>\<newline>'' @
     u ''    <button onclick="window.print()" class="print-btn">'' @
     [63743, 252, 241, 174, 212, 8719, 232] @
     u '' '' @
     [8211, 252, 8211, 181, 8212, 225, 8211, 8734, 8212, 199, 8212, 229] @
     u '' '' @
     [8211, 8804] @
     u '' PDF</button>\<newline>'' @
     u ''    \<newline>''\<close>

definition wrap_slide :: "ustring \<Rightarrow> ustring" where
  \<open>wrap_slide slide_content =
     u ''    <div class="slide">\<newline>'' @ slide_content @ u ''\<newline>    </div>\<newline>''\<close>

text \<open>The document assembled from the text of the input and the slides found in it.\<close>

definition output_html :: "str_hash \<Rightarrow> ustring \<Rightarrow> ustring list \<Rightarrow> ustring" where
  "output_html h content slides =
     foldl (\<lambda>out slide_content. out @ wrap_slide slide_content)
       (shell_head @ str_join (u ''\<newline>'') (font_faces content) @ shell_between @
        all_styles h content @ shell_rest)
       slides
     @ u ''</body>\<newline></html>''"

subsection \<open>Files, standard output and the entry point\<close>

text \<open>
  What a path names: a directory, or a file with its read and write permission and, when its
  bytes are valid UTF-8, the text they decode to.
\<close>

datatype node = Directory | File bool bool "ustring option"

text \<open>
  The world of a run: what the paths name, whether the working directory allows a new file to
  be created in it, and the lines printed so far.
\<close>

record world =
  files :: "ustring \<rightharpoonup> node"
  creatable :: bool
  stdout :: "ustring list"

text \<open>\<open>path.exists()\<close>.\<close>

definition path_exists :: "world \<Rightarrow> ustring \<Rightarrow> bool" where
  "path_exists w path = (files w path \<noteq> None)"

text \<open>\<open>open(path, 'r', encoding='utf-8')\<close> and \<open>f.read()\<close>.\<close>

definition read_text :: "world \<Rightarrow> ustring \<Rightarrow> error + ustring" where
  "read_text w path =
     (case files w path of
        None \<Rightarrow> Inl FileNotFoundError
      | Some Directory \<Rightarrow> Inl IsADirectoryError
      | Some (File readable writable decoded) \<Rightarrow>
          if \<not> readable then Inl PermissionError
          else case decoded of None \<Rightarrow> Inl UnicodeDecodeError | Some content \<Rightarrow> Inr content)"

text \<open>
  \<open>open(path, 'w', encoding='utf-8')\<close> and \<open>f.write(text)\<close>: the file is created or
  overwritten, unless the path cannot be opened for writing.
\<close>

definition write_text :: "world \<Rightarrow> ustring \<Rightarrow> ustring \<Rightarrow> error + world" where
  "write_text w path text =
     (case files w path of
        None \<Rightarrow>
          if creatable w then Inr (w\<lparr>files := (files w)(path \<mapsto> File True True (Some text))\<rparr>)
          else Inl PermissionError
      | Some Directory \<Rightarrow> Inl IsADirectoryError
      | Some (File readable writable decoded) \<Rightarrow>
          if writable
          then Inr (w\<lparr>files := (files w)(path \<mapsto> File readable writable (Some text))\<rparr>)
          else Inl PermissionError)"

text \<open>
  \<open>extract_slides(input_file, output_file)\<close>: the world after the call, and the exception
  that ended it, if one did.
\<close>

definition extract_slides ::
  "str_hash \<Rightarrow> (ustring \<Rightarrow> error + ustring) \<Rightarrow> ustring \<Rightarrow> ustring \<Rightarrow> world
     \<Rightarrow> world \<times> error option" where
  "extract_slides h charref_sub input_file output_file w =
     (case read_text w input_file of
        Inl e \<Rightarrow> (w, Some e)
      | Inr content \<Rightarrow>
          (case slides_of charref_sub content of
             Inl e \<Rightarrow> (w, Some e)
           | Inr slides \<Rightarrow>
               let n = str_of_nat (length slides);
                   w1 = w\<lparr>stdout := stdout w @ [u ''Found '' @ n @ u '' slides'']\<rparr>
               in case write_text w1 output_file (output_html h content slides) of
                    Inl e \<Rightarrow> (w1, Some e)
                  | Inr w2 \<Rightarrow>
                      (w2\<lparr>stdout := stdout w2 @
                          [u ''Created '' @ output_file @ u '' with '' @ n @ u '' slides'']\<rparr>,
                       None)))"

definition input_file :: ustring where
  "input_file = u ''Genspark (03.12.2025 07'' @ [212, 186, 246] @ u ''41'' @ [212, 186, 246] @ u ''35).html''"

definition output_file :: ustring where
  "output_file = u ''slides-export-plagiat.html''"

text \<open>
  The script's entry point: the world after the run and the exit status of the process (an
  exception that nothing catches ends the process with status 1).
\<close>

definition main ::
  "str_hash \<Rightarrow> (ustring \<Rightarrow> error + ustring) \<Rightarrow> world \<Rightarrow> world \<times> int" where
  "main h charref_sub w =
     (if \<not> path_exists w input_file
      then (w\<lparr>stdout := stdout w @ [u ''Error: '' @ input_file @ u '' not found'']\<rparr>, 1)
      else (case extract_slides h charref_sub input_file output_file w of
              (w', Some e) \<Rightarrow> (w', 1)
            | (w', None) \<Rightarrow> (w'\<lparr>stdout := stdout w' @ [u ''Done!'']\<rparr>, 0)))"

text \<open>The text of the file at a path, when the path names a file of valid UTF-8.\<close>

definition file_text :: "world \<Rightarrow> ustring \<Rightarrow> ustring option" where
  "file_text w path =
     (case files w path of
        Some (File readable writable decoded) \<Rightarrow> decoded
      | _ \<Rightarrow> None)"

subsection \<open>Two inputs on which a run aborts with the input file present\<close>

text \<open>
  A section whose container is never closed and that holds a decimal character reference of
  4301 digits, a document with this section followed by a section with a closed container,
  and a world in which the input path names a directory.
\<close>

definition long_reference_section :: ustring where
  \<open>long_reference_section =
     u ''<div class="slide-container">&#'' @ replicate 4301 (of_char CHR ''1'') @ u '';<p>cut''\<close>

definition long_reference_document :: ustring where
  \<open>long_reference_document =
     u ''<html><body>'' @ long_reference_section
       @ u ''<body><div id="w"><div class="slide-container">b</div></div>''\<close>

definition directory_world :: world where
  "directory_world = \<lparr>files = [input_file \<mapsto> Directory], creatable = True, stdout = []\<rparr>"

subsection \<open>The nesting of the div tags of a text\<close>

text \<open>
  To speak about balanced and unclosed containers: the div tags of a text in the order in which
  they occur, \<open>True\<close> for an opening tag (an occurrence of \<open><div\<close>) and \<open>False\<close> for a closing
  tag (an occurrence of \<open></div>\<close>).
\<close>

fun div_tags :: "ustring \<Rightarrow> bool list" where
  "div_tags [] = []"
| "div_tags (x # xs) =
     (if prefix (u ''<div'') (x # xs) then True # div_tags xs
      else if prefix (u ''</div>'') (x # xs) then False # div_tags xs
      else div_tags xs)"

text \<open>
  \<open>never_closes depth tags\<close>: reading \<open>tags\<close> from nesting depth \<open>depth\<close> on, no closing tag
  brings the depth back to zero.
\<close>

fun never_closes :: "nat \<Rightarrow> bool list \<Rightarrow> bool" where
  "never_closes depth [] = True"
| "never_closes depth (True # tags) = never_closes (Suc depth) tags"
| "never_closes depth (False # tags) = (1 < depth \<and> never_closes (depth - 1) tags)"

text \<open>
  A text whose container is opened and never closed: it holds the opening tag of the container,
  and from that tag on the nesting of the div tags never returns to zero.
\<close>

definition container_unclosed :: "ustring \<Rightarrow> bool" where
  \<open>container_unclosed slide_html =
     (let container_start = str_find slide_html (u ''<div class="slide-container'') 0
      in 0 \<le> container_start \<and>
         never_closes 0 (div_tags (drop (nat container_start) slide_html)))\<close>

section \<open>Facts about the string operations\<close>

lemma find_from_ge: "0 \<le> find_from sub xs i \<Longrightarrow> int i \<le> find_from sub xs i"
  by (induction xs arbitrary: i) (fastforce split: if_splits)+

lemma find_from_neg: "find_from sub xs i < 0 \<Longrightarrow> find_from sub xs i = -1"
  by (induction xs arbitrary: i) (auto split: if_splits)

lemma find_from_prefix:
  "0 \<le> find_from sub xs i \<Longrightarrow> prefix sub (drop (nat (find_from sub xs i) - i) xs)"
proof (induction xs arbitrary: i)
  case Nil
  then show ?case by (auto split: if_splits)
next
  case (Cons x xs)
  show ?case
  proof (cases "prefix sub (x # xs)")
    case True
    then show ?thesis by simp
  next
    case False
    with Cons.prems have nn: "0 \<le> find_from sub xs (Suc i)" by simp
    from find_from_ge[OF nn] have "nat (find_from sub xs (Suc i)) - i = Suc (nat (find_from sub xs (Suc i)) - Suc i)"
      by linarith
    with Cons.IH[OF nn] False show ?thesis by simp
  qed
qed

lemma find_from_least:
  "0 \<le> find_from sub xs i \<Longrightarrow> k < nat (find_from sub xs i) - i \<Longrightarrow> \<not> prefix sub (drop k xs)"
proof (induction xs arbitrary: i k)
  case Nil
  then show ?case by (auto split: if_splits)
next
  case (Cons x xs)
  show ?case
  proof (cases "prefix sub (x # xs)")
    case True
    with Cons.prems show ?thesis by simp
  next
    case False
    with Cons.prems have nn: "0 \<le> find_from sub xs (Suc i)" by simp
    show ?thesis
    proof (cases k)
      case 0
      with False show ?thesis by simp
    next
      case (Suc k')
      with Cons.prems(2) False have "k' < nat (find_from sub xs (Suc i)) - Suc i" by simp
      from Cons.IH[OF nn this] Suc show ?thesis by simp
    qed
  qed
qed

lemma find_from_none:
  "find_from sub xs i < 0 \<Longrightarrow> \<not> prefix sub (drop k xs)"
proof (induction xs arbitrary: i k)
  case Nil
  then show ?case by (auto split: if_splits)
next
  case (Cons x xs)
  then show ?case by (cases k) (auto split: if_splits)
qed

text \<open>What a successful \<open>find\<close> from a position inside the text gives.\<close>

lemma str_find_found:
  assumes "0 \<le> p" and "0 \<le> str_find s sub p"
  shows "p \<le> str_find s sub p"
    and "prefix sub (drop (nat (str_find s sub p)) s)"
    and "\<And>k. nat p \<le> k \<Longrightarrow> k < nat (str_find s sub p) \<Longrightarrow> \<not> prefix sub (drop k s)"
proof -
  from assms have le: "p \<le> int (length s)"
    by (auto simp: str_find_def Let_def split: if_splits)
  with assms have eq: "str_find s sub p = find_from sub (drop (nat p) s) (nat p)"
    by (simp add: str_find_def Let_def)
  with assms have nn: "0 \<le> find_from sub (drop (nat p) s) (nat p)" by simp
  from find_from_ge[OF nn] assms eq show ge: "p \<le> str_find s sub p" by simp
  from find_from_prefix[OF nn] ge assms eq
  show "prefix sub (drop (nat (str_find s sub p)) s)" by simp
  fix k assume "nat p \<le> k" "k < nat (str_find s sub p)"
  with eq have "k - nat p < nat (find_from sub (drop (nat p) s) (nat p)) - nat p" by linarith
  from find_from_least[OF nn this] \<open>nat p \<le> k\<close> show "\<not> prefix sub (drop k s)" by simp
qed

lemma str_find_neg: "str_find s sub p < 0 \<Longrightarrow> str_find s sub p = -1"
  unfolding str_find_def Let_def by (auto split: if_splits dest: find_from_neg)

lemma str_find_none:
  assumes "0 \<le> p" and "str_find s sub p < 0" and "nat p \<le> k" and "sub \<noteq> []"
  shows "\<not> prefix sub (drop k s)"
proof (cases "p \<le> int (length s)")
  case True
  with assms have "find_from sub (drop (nat p) s) (nat p) < 0"
    by (simp add: str_find_def Let_def)
  from find_from_none[OF this, of "k - nat p"] assms show ?thesis by simp
next
  case False
  with assms show ?thesis by simp
qed

section \<open>Facts about the style loop\<close>

lemma set_set_add: "set (set_add h x xs) = insert x (set xs)"
  by (auto simp: set_add_def set_insort_key)

lemma remdups_snoc: "remdups (ys @ [x]) = remdups (filter (\<lambda>y. y \<noteq> x) ys) @ [x]"
  by (induction ys) auto

lemma first_seen_Cons:
  "rev (remdups (rev (x # ys))) = x # rev (remdups (rev (filter (\<lambda>y. y \<noteq> x) ys)))"
  by (simp add: remdups_snoc rev_filter)

lemma unique_styles_loop_eq:
  "unique_styles_loop h xs seen uniq =
     uniq @ rev (remdups (rev (filter (\<lambda>s. s \<notin> set seen \<and> 100 < length s) xs)))"
proof (induction xs arbitrary: seen uniq)
  case Nil
  show ?case by simp
next
  case (Cons x xs)
  show ?case
  proof (cases "x \<notin> set seen \<and> 100 < length x")
    case True
    have "filter (\<lambda>y. y \<noteq> x) (filter (\<lambda>s. s \<notin> set seen \<and> 100 < length s) xs)
        = filter (\<lambda>s. s \<notin> set (set_add h x seen) \<and> 100 < length s) xs"
      by (auto simp: set_set_add intro: filter_cong)
    with True Cons.IH[of "set_add h x seen" "uniq @ [x]"] show ?thesis
      by (simp add: first_seen_Cons del: remdups.simps rev.simps)
  next
    case False
    with Cons.IH[of seen uniq] show ?thesis by auto
  qed
qed

lemma unique_styles_eq:
  "unique_styles h matches = rev (remdups (rev (filter (\<lambda>s. 100 < length s) matches)))"
  by (simp add: unique_styles_def unique_styles_loop_eq)

lemma count_list_distinct: "distinct xs \<Longrightarrow> x \<in> set xs \<Longrightarrow> count_list xs x = 1"
  by (induction xs) (auto simp: count_list_0_iff)

lemma all_styles_hash: "all_styles h content = all_styles h' content"
  by (simp add: all_styles_def unique_styles_eq)

lemma output_html_hash: "output_html h content slides = output_html h' content slides"
  by (simp add: output_html_def all_styles_hash[of h content h'])

section \<open>Facts about the scan for the closing tag\<close>

lemma scan_divs_found:
  "0 \<le> pos \<Longrightarrow> 0 \<le> scan_divs s pos c \<Longrightarrow>
     \<exists>nc. pos \<le> nc \<and> prefix (u ''</div>'') (drop (nat nc) s) \<and> scan_divs s pos c = nc + 6"
proof (induction s pos c rule: scan_divs.induct)
  case (1 s pos c)
  let ?no = "str_find s (u ''<div'') pos"
  let ?nc = "str_find s (u ''</div>'') pos"
  from "1.prems" have lt: "pos < int (length s)" and nc0: "0 \<le> ?nc"
    by (auto simp: scan_divs.simps[of s pos c] Let_def split: if_splits)
  note fc = str_find_found[OF "1.prems"(1) nc0]
  show ?case
  proof (cases "0 \<le> ?no \<and> ?no < ?nc")
    case True
    then have no0: "0 \<le> ?no" by simp
    from str_find_found(1)[OF "1.prems"(1) no0] have ge: "pos \<le> ?no" .
    from True lt nc0 have eq: "scan_divs s pos c = scan_divs s (?no + 4) (c + 1)"
      by (subst scan_divs.simps) (auto simp: Let_def)
    from "1.IH"(1)[OF lt refl refl _ True] nc0 ge "1.prems" eq
    obtain nc where "?no + 4 \<le> nc" "prefix (u ''</div>'') (drop (nat nc) s)"
        "scan_divs s (?no + 4) (c + 1) = nc + 6"
      by auto
    with eq ge show ?thesis by (intro exI[of _ nc]) auto
  next
    case False
    show ?thesis
    proof (cases "c = 0")
      case True
      with False lt nc0 have "scan_divs s pos c = ?nc + 6"
        by (subst scan_divs.simps) (auto simp: Let_def)
      with fc show ?thesis by (intro exI[of _ ?nc]) auto
    next
      case c: False
      with False lt nc0 have eq: "scan_divs s pos c = scan_divs s (?nc + 6) (c - 1)"
        by (subst scan_divs.simps) (auto simp: Let_def)
      from "1.IH"(2)[OF lt refl refl _ False c] nc0 fc(1) "1.prems" eq
      obtain nc where "?nc + 6 \<le> nc" "prefix (u ''</div>'') (drop (nat nc) s)"
        "scan_divs s (?nc + 6) (c - 1) = nc + 6"
        by auto
      with eq fc(1) show ?thesis by (intro exI[of _ nc]) auto
    qed
  qed
qed


lemma close_not_inside_marker:
  assumes \<open>prefix (u ''</div>'') (drop k (u ''<div class="slide-container'' @ rest))\<close>
  shows "27 \<le> k"
proof (rule ccontr)
  define m where \<open>m = u ''<div class="slide-container''\<close>
  have len: "length m = 27" and tl: "60 \<notin> set (tl m)"
    and zero: "\<not> prefix (u ''</div>'') (m @ rest)"
    by (simp_all add: m_def)
  assume "\<not> 27 \<le> k"
  with len have k: "k < length m" by simp
  then have "drop k (m @ rest) = m ! k # drop (Suc k) m @ rest"
    by (simp add: Cons_nth_drop_Suc)
  moreover from assms have "prefix (u ''</div>'') (drop k (m @ rest))"
    unfolding m_def .
  ultimately have "prefix (u ''</div>'') (m ! k # drop (Suc k) m @ rest)"
    by (simp only:)
  then have h: "m ! k = 60" by simp
  have "k = 0"
  proof (rule ccontr)
    assume "k \<noteq> 0"
    then obtain j where j: "k = Suc j" by (cases k) auto
    with k have "tl m ! j \<in> set (tl m)" by (intro nth_mem) simp
    moreover from j k have "tl m ! j = m ! k" by (simp add: nth_tl)
    ultimately show False using h tl by simp
  qed
  with assms zero show False unfolding m_def by simp
qed

lemma py_strip_id:
  assumes "xs \<noteq> []" and "\<not> is_space (hd xs)" and "\<not> is_space (last xs)"
  shows "py_strip xs = xs"
proof -
  from assms have "dropWhile is_space xs = xs" by (cases xs) auto
  moreover from assms have "dropWhile is_space (rev xs) = rev xs"
    by (cases "rev xs") (auto simp: last_rev[symmetric] simp del: last_rev)
  ultimately show ?thesis by (simp add: py_strip_def)
qed

text \<open>
  The shape of every slide: the marker of the container, some text, and a closing tag at the
  end; \<open>strip\<close> removes nothing from it.
\<close>

lemma section_slide_shape:
  assumes "section_slide charref_sub sec = Inr (Some slide)"
  shows \<open>\<exists>mid. slide = u ''<div class="slide-container'' @ mid @ u ''</div>''\<close>
proof -
  define m where \<open>m = u ''<div class="slide-container''\<close>
  define c where "c = u ''</div>''"
  have lm: "length m = 27" and lc: "length c = 6"
    and hm: "m \<noteq> []" "\<not> is_space (hd m)" and hc: "c \<noteq> []" "\<not> is_space (last c)"
    by (simp_all add: m_def c_def is_space_def)
  from assms obtain sh where sh: "html_unescape charref_sub sec = Inr sh"
    by (auto simp: section_slide_def split: if_splits sum.splits)
  define cs where "cs = str_find sh m 0"
  define ce where "ce = scan_divs sh cs 0"
  from assms sh have cs0: "0 \<le> cs" and lt: "cs < ce"
    and sl: "slide = py_strip (py_slice sh cs ce)"
    by (auto simp: section_slide_def Let_def cs_def ce_def m_def split: if_splits)
  from str_find_found(2)[of 0 sh m] cs0 have "prefix m (drop (nat cs) sh)"
    by (simp add: cs_def)
  then obtain rest where rest: "drop (nat cs) sh = m @ rest" by (auto simp: prefix_def)
  from lt cs0 have "0 \<le> scan_divs sh cs 0" by (simp add: ce_def)
  from scan_divs_found[OF cs0 this] obtain nc where
    nc: "cs \<le> nc" "prefix c (drop (nat nc) sh)" "ce = nc + 6"
    by (auto simp: ce_def c_def)
  define d where "d = nat nc - nat cs"
  from nc(1) cs0 have dd: "drop (nat nc) sh = drop d (drop (nat cs) sh)" by (simp add: d_def)
  with nc(2) rest have "prefix c (drop d (m @ rest))" by simp
  then have far: "27 \<le> d" unfolding c_def m_def by (rule close_not_inside_marker)
  from nc(2) obtain rest2 where rest2: "drop (nat nc) sh = c @ rest2" by (auto simp: prefix_def)
  then have "length (drop (nat nc) sh) \<ge> 6" by (simp add: lc)
  then have len: "nat nc + 6 \<le> length sh" by simp
  with cs0 nc have "py_slice sh cs ce = take (d + 6) (drop (nat cs) sh)"
    by (auto simp: py_slice_def Let_def min_def nat_diff_distrib nat_add_distrib d_def)
  also have "\<dots> = take d (drop (nat cs) sh) @ take 6 (drop d (drop (nat cs) sh))"
    by (simp only: take_add)
  also have "take 6 (drop d (drop (nat cs) sh)) = c"
  proof -
    from rest2 dd have "drop d (drop (nat cs) sh) = c @ rest2" by (simp only:)
    with lc show ?thesis by (simp only: take_append) simp
  qed
  also have "take d (drop (nat cs) sh) = m @ take (d - 27) rest"
    using far lm by (simp add: rest)
  finally have shape: "py_slice sh cs ce = m @ take (d - 27) rest @ c" by simp
  have "py_strip (m @ take (d - 27) rest @ c) = m @ take (d - 27) rest @ c"
    using hm hc by (intro py_strip_id) simp_all
  with sl shape have "slide = m @ take (d - 27) rest @ c" by simp
  then have "\<exists>mid. slide = m @ mid @ c" by blast
  then show ?thesis unfolding m_def c_def .
qed

text \<open>The loop over the sections: where its slides come from, and what it skips.\<close>

lemma slides_loop_slides:
  "slides_loop charref_sub sections slides = Inr result \<Longrightarrow> slide \<in> set result \<Longrightarrow>
     slide \<in> set slides \<or> (\<exists>sec \<in> set sections. section_slide charref_sub sec = Inr (Some slide))"
proof (induction sections arbitrary: slides)
  case Nil
  then show ?case by simp
next
  case (Cons s sections)
  show ?case
  proof (cases "section_slide charref_sub s")
    case (Inl e)
    with Cons.prems show ?thesis by simp
  next
    case (Inr r)
    show ?thesis
    proof (cases r)
      case None
      with Inr Cons.prems Cons.IH[of slides] show ?thesis by auto
    next
      case (Some x)
      with Inr Cons.prems Cons.IH[of "slides @ [x]"] show ?thesis by auto
    qed
  qed
qed

lemma slides_loop_skip:
  "section_slide charref_sub sec = Inr None \<Longrightarrow>
     slides_loop charref_sub (before @ sec # after) slides
       = slides_loop charref_sub (before @ after) slides"
  by (induction before arbitrary: slides) (auto split: sum.splits option.splits)

section \<open>Facts about splitting and the loop over the sections\<close>

lemma str_contains_iff:
  assumes "sub \<noteq> []"
  shows "str_contains s sub \<longleftrightarrow> (\<exists>k. prefix sub (drop k s))"
proof
  assume "str_contains s sub"
  then have "0 \<le> str_find s sub 0" by (simp add: str_contains_def)
  from str_find_found(2)[OF _ this] show "\<exists>k. prefix sub (drop k s)" by auto
next
  assume "\<exists>k. prefix sub (drop k s)"
  then obtain k where k: "prefix sub (drop k s)" ..
  show "str_contains s sub"
  proof (rule ccontr)
    assume "\<not> str_contains s sub"
    then have "str_find s sub 0 < 0" by (simp add: str_contains_def)
    from str_find_none[OF _ this _ assms, of k] k show False by simp
  qed
qed

lemma split_from_nonempty: "split_from s sep pos \<noteq> []"
  by (subst split_from.simps) (simp add: Let_def)

lemma str_join_Cons: "xs \<noteq> [] \<Longrightarrow> str_join sep (x # xs) = x @ sep @ str_join sep xs"
  by (cases xs) simp_all

lemma split_from_join:
  "pos \<le> length s \<Longrightarrow> str_join sep (split_from s sep pos) = drop pos s"
proof (induction s sep pos rule: split_from.induct)
  case (1 s sep pos)
  let ?j = "str_find s sep (int pos)"
  show ?case
  proof (cases "?j < 0 \<or> sep = []")
    case True
    then show ?thesis by (subst split_from.simps) (simp add: Let_def)
  next
    case False
    then have j0: "0 \<le> ?j" and ne: "sep \<noteq> []" by auto
    from str_find_found(1,2)[OF _ j0] have ge: "int pos \<le> ?j"
      and pre: "prefix sep (drop (nat ?j) s)" by auto
    from pre obtain rest where rest: "drop (nat ?j) s = sep @ rest" by (auto simp: prefix_def)
    then have "length (drop (nat ?j) s) = length sep + length rest" by simp
    with ne have le: "nat ?j + length sep \<le> length s" by (cases sep) auto
    have dr: "drop (nat ?j + length sep) s = rest"
      using rest by (metis add.commute append_eq_conv_conj drop_drop)
    from "1.IH"[OF refl False le]
    have ih: "str_join sep (split_from s sep (nat ?j + length sep)) = rest" by (simp add: dr)
    have "split_from s sep pos
        = take (nat ?j - pos) (drop pos s) # split_from s sep (nat ?j + length sep)"
      using False by (subst split_from.simps) (simp add: Let_def)
    then have "str_join sep (split_from s sep pos)
        = take (nat ?j - pos) (drop pos s) @ sep @ rest"
      by (simp add: str_join_Cons split_from_nonempty ih)
    also have "sep @ rest = drop (nat ?j - pos) (drop pos s)"
      using ge rest by simp
    finally show ?thesis by (simp only: append_take_drop_id)
  qed
qed

lemma split_from_pieces:
  "pos \<le> length s \<Longrightarrow> sep \<noteq> [] \<Longrightarrow> piece \<in> set (split_from s sep pos)
     \<Longrightarrow> \<not> str_contains piece sep"
proof (induction s sep pos rule: split_from.induct)
  case (1 s sep pos)
  let ?j = "str_find s sep (int pos)"
  show ?case
  proof (cases "?j < 0")
    case True
    then have "split_from s sep pos = [drop pos s]"
      by (subst split_from.simps) (simp add: Let_def)
    with "1.prems" have p: "piece = drop pos s" by simp
    show ?thesis
    proof
      assume "str_contains piece sep"
      with "1.prems"(2) obtain k where "prefix sep (drop k piece)"
        by (auto simp: str_contains_iff)
      with p have "prefix sep (drop (k + pos) s)" by simp
      with str_find_none[OF _ True _ "1.prems"(2), of "k + pos"] show False by simp
    qed
  next
    case False
    then have j0: "0 \<le> ?j" by simp
    from False "1.prems"(2) have F: "\<not> (?j < 0 \<or> sep = [])" by simp
    from str_find_found[OF _ j0] have ge: "int pos \<le> ?j"
      and pre: "prefix sep (drop (nat ?j) s)"
      and least: "\<And>k. pos \<le> k \<Longrightarrow> k < nat ?j \<Longrightarrow> \<not> prefix sep (drop k s)" by auto
    from pre have "length sep \<le> length (drop (nat ?j) s)" by (rule prefix_length_le)
    with "1.prems"(2) have le: "nat ?j + length sep \<le> length s" by (cases sep) auto
    from F have "split_from s sep pos
        = take (nat ?j - pos) (drop pos s) # split_from s sep (nat ?j + length sep)"
      by (subst split_from.simps) (simp add: Let_def)
    with "1.prems"(3) have
      "piece = take (nat ?j - pos) (drop pos s) \<or> piece \<in> set (split_from s sep (nat ?j + length sep))"
      by simp
    then show ?thesis
    proof
      assume p: "piece = take (nat ?j - pos) (drop pos s)"
      show ?thesis
      proof
        assume "str_contains piece sep"
        with "1.prems"(2) obtain k where k: "prefix sep (drop k piece)"
          by (auto simp: str_contains_iff)
        with "1.prems"(2) have "drop k piece \<noteq> []" by auto
        then have "k < length piece" by simp
        with p have kl: "k < nat ?j - pos" by simp
        from p have "drop k piece = take (nat ?j - pos - k) (drop (pos + k) s)"
          by (simp add: drop_take add.commute)
        then have "prefix (drop k piece) (drop (pos + k) s)" by (simp add: take_is_prefix)
        with k have "prefix sep (drop (pos + k) s)" by (rule prefix_order.trans)
        moreover from kl have "pos + k < nat ?j" by linarith
        ultimately show False using least[of "pos + k"] by simp
      qed
    next
      assume "piece \<in> set (split_from s sep (nat ?j + length sep))"
      from "1.IH"[OF refl F le "1.prems"(2) this] show ?thesis .
    qed
  qed
qed

lemma str_split_no_sep: "\<not> str_contains s sep \<Longrightarrow> str_split s sep = [s]"
  unfolding str_split_def str_contains_def
  by (subst split_from.simps) (simp add: Let_def)

lemma slides_loop_filter:
  "slides_loop charref_sub (filter (\<lambda>s. str_contains s (u ''slide-container'')) sections) slides
     = slides_loop charref_sub sections slides"
proof (induction sections arbitrary: slides)
  case Nil
  show ?case by simp
next
  case (Cons s sections)
  show ?case
  proof (cases "str_contains s (u ''slide-container'')")
    case True
    with Cons show ?thesis by (simp split: sum.splits option.splits)
  next
    case False
    then have "section_slide charref_sub s = Inr None" by (simp add: section_slide_def)
    with False Cons show ?thesis by simp
  qed
qed

section \<open>Facts about unclosed containers\<close>

lemma open_not_close: "prefix (u ''<div'') xs \<Longrightarrow> \<not> prefix (u ''</div>'') xs"
  by (auto simp: prefix_def)

lemma div_tags_open: "prefix (u ''<div'') xs \<Longrightarrow> div_tags xs = True # div_tags (drop 4 xs)"
  by (auto simp: prefix_def)

lemma div_tags_close: "prefix (u ''</div>'') xs \<Longrightarrow> div_tags xs = False # div_tags (drop 6 xs)"
  by (auto simp: prefix_def)

lemma div_tags_skip:
  assumes "\<And>k. a \<le> k \<Longrightarrow> k < b \<Longrightarrow>
             \<not> prefix (u ''<div'') (drop k s) \<and> \<not> prefix (u ''</div>'') (drop k s)"
    and "a \<le> b"
  shows "div_tags (drop a s) = div_tags (drop b s)"
  using assms
proof (induction "b - a" arbitrary: a)
  case 0
  then show ?case by simp
next
  case (Suc n)
  then have ab: "a < b" by simp
  show ?case
  proof (cases "a < length s")
    case True
    then have d: "drop a s = s ! a # drop (Suc a) s" by (simp add: Cons_nth_drop_Suc)
    from Suc.prems(1)[of a] ab
    have "\<not> prefix (u ''<div'') (drop a s)" "\<not> prefix (u ''</div>'') (drop a s)" by auto
    then have "div_tags (drop a s) = div_tags (drop (Suc a) s)"
      unfolding d by (simp del: list.map)
    moreover have "div_tags (drop (Suc a) s) = div_tags (drop b s)"
    proof (rule Suc.hyps(1))
      from Suc.hyps(2) show "n = b - Suc a" by simp
      from ab show "Suc a \<le> b" by simp
      fix k assume "Suc a \<le> k" "k < b"
      with Suc.prems(1)[of k]
      show "\<not> prefix (u ''<div'') (drop k s) \<and> \<not> prefix (u ''</div>'') (drop k s)" by simp
    qed
    ultimately show ?thesis by simp
  next
    case False
    with ab show ?thesis by simp
  qed
qed


lemma scan_divs_unclosed:
  "0 \<le> pos \<Longrightarrow> 0 \<le> c \<Longrightarrow> never_closes (nat c) (div_tags (drop (nat pos) s))
     \<Longrightarrow> scan_divs s pos c = -1"
proof (induction s pos c rule: scan_divs.induct)
  case (1 s pos c)
  let ?no = "str_find s (u ''<div'') pos"
  let ?nc = "str_find s (u ''</div>'') pos"
  show ?case
  proof (cases "pos < int (length s) \<and> 0 \<le> ?nc")
    case False
    then show ?thesis by (subst scan_divs.simps) (auto simp: Let_def)
  next
    case True
    then have lt: "pos < int (length s)" and nc0: "0 \<le> ?nc" by auto
    note fc = str_find_found[OF "1.prems"(1) nc0]
    show ?thesis
    proof (cases "0 \<le> ?no \<and> ?no < ?nc")
      case T: True
      then have no0: "0 \<le> ?no" by simp
      note fo = str_find_found[OF "1.prems"(1) no0]
      have "div_tags (drop (nat pos) s) = div_tags (drop (nat ?no) s)"
      proof (rule div_tags_skip)
        from fo(1) show "nat pos \<le> nat ?no" by simp
        fix k assume k: "nat pos \<le> k" "k < nat ?no"
        with T have "k < nat ?nc" by linarith
        with k fo(3)[of k] fc(3)[of k]
        show "\<not> prefix (u ''<div'') (drop k s) \<and> \<not> prefix (u ''</div>'') (drop k s)" by simp
      qed
      also have "\<dots> = True # div_tags (drop 4 (drop (nat ?no) s))"
        using fo(2) by (rule div_tags_open)
      also have "drop 4 (drop (nat ?no) s) = drop (nat (?no + 4)) s"
        using no0 by (simp add: nat_add_distrib add.commute)
      finally have "never_closes (nat (c + 1)) (div_tags (drop (nat (?no + 4)) s))"
        using "1.prems"(2,3) by (simp add: nat_add_distrib)
      with "1.IH"(1)[OF lt refl refl _ T] nc0 no0 "1.prems"(2)
      have "scan_divs s (?no + 4) (c + 1) = -1" by simp
      with T lt nc0 show ?thesis by (subst scan_divs.simps) (auto simp: Let_def)
    next
      case F: False
      have "div_tags (drop (nat pos) s) = div_tags (drop (nat ?nc) s)"
      proof (rule div_tags_skip)
        from fc(1) show "nat pos \<le> nat ?nc" by simp
        fix k assume k: "nat pos \<le> k" "k < nat ?nc"
        have "\<not> prefix (u ''<div'') (drop k s)"
        proof (cases "0 \<le> ?no")
          case True
          with F k nc0 have "k < nat ?no" by linarith
          with str_find_found(3)[OF "1.prems"(1) True, of k] k show ?thesis by simp
        next
          case False
          then have "?no < 0" by simp
          from str_find_none[OF "1.prems"(1) this k(1)] show ?thesis by simp
        qed
        with k fc(3)[of k]
        show "\<not> prefix (u ''<div'') (drop k s) \<and> \<not> prefix (u ''</div>'') (drop k s)" by simp
      qed
      also have "\<dots> = False # div_tags (drop 6 (drop (nat ?nc) s))"
        using fc(2) by (rule div_tags_close)
      also have "drop 6 (drop (nat ?nc) s) = drop (nat (?nc + 6)) s"
        using nc0 by (simp add: nat_add_distrib add.commute)
      finally have nv: "never_closes (nat c) (False # div_tags (drop (nat (?nc + 6)) s))"
        using "1.prems"(3) by simp
      then have c1: "1 < c" and "never_closes (nat (c - 1)) (div_tags (drop (nat (?nc + 6)) s))"
        by (auto simp: nat_diff_distrib)
      with "1.IH"(2)[OF lt refl refl _ F] nc0 have "scan_divs s (?nc + 6) (c - 1) = -1" by simp
      with F lt nc0 c1 show ?thesis by (subst scan_divs.simps) (auto simp: Let_def)
    qed
  qed
qed

text \<open>The definitions that evaluate the extraction on a given text.\<close>

lemmas eval_defs =
  slides_of_def body_splits_def str_split_def split_from.simps section_slide_def
  str_contains_def html_unescape_def scan_divs.simps str_find_def py_slice_def py_strip_def
  is_space_def

lemmas run_defs =
  main_def extract_slides_def path_exists_def read_text_def write_text_def output_file_def

section \<open>Facts about the section with the long character reference\<close>

lemma find_from_replicate:
  "s0 \<noteq> x \<Longrightarrow> find_from (s0 # ss) (replicate n x @ ys) i = find_from (s0 # ss) ys (i + n)"
  by (induction n arbitrary: i) simp_all

lemma div_tags_replicate:
  "x \<noteq> 60 \<Longrightarrow> div_tags (replicate n x @ ys) = div_tags ys"
  by (induction n) simp_all

lemma long_decimal_reference_replicate:
  "x \<noteq> 38 \<Longrightarrow> long_decimal_reference (replicate n x @ ys) = long_decimal_reference ys"
  by (induction n) simp_all

lemma takeWhile_replicate_append:
  "P x \<Longrightarrow> takeWhile P (replicate n x @ ys) = replicate n x @ takeWhile P ys"
  by (induction n) simp_all

lemma long_reference_section_unclosed: "container_unclosed long_reference_section"
  by (simp add: container_unclosed_def long_reference_section_def str_find_def div_tags_replicate)

lemma long_reference_section_raises:
  "html_unescape (charref_sub_limited subst) long_reference_section = Inl ValueError"
  by (simp add: html_unescape_def charref_sub_limited_def long_reference_section_def
      takeWhile_replicate_append is_digit_def)

lemma long_reference_document_sections:
  \<open>drop 1 (body_splits long_reference_document)
     = [long_reference_section, u ''<div id="w"><div class="slide-container">b</div></div>'']\<close>
  by (simp add: body_splits_def str_split_def split_from.simps str_find_def
      long_reference_document_def long_reference_section_def find_from_replicate)

lemma long_reference_document_raises:
  "slides_of (charref_sub_limited subst) long_reference_document = Inl ValueError"
proof -
  have "str_contains long_reference_section (u ''slide-container'')"
    by (simp add: str_contains_def str_find_def long_reference_section_def)
  then have "section_slide (charref_sub_limited subst) long_reference_section = Inl ValueError"
    by (simp add: section_slide_def long_reference_section_raises)
  then show ?thesis
    unfolding slides_of_def long_reference_document_sections by simp
qed

section \<open>Facts about reading and writing\<close>

lemma write_text_stdout:
  "write_text (w\<lparr>stdout := out\<rparr>) path text = Inl e \<longleftrightarrow> write_text w path text = Inl e"
  by (auto simp: write_text_def split: option.splits node.splits)

lemma write_text_files:
  "write_text w path text = Inr w' \<Longrightarrow>
     file_text w' path = Some text \<and> stdout w' = stdout w"
  by (auto simp: write_text_def file_text_def split: option.splits node.splits if_splits)

section \<open>The style deduplicator\<close>

text \<open>
  C7: a style block whose inner text has at most 100 code points never appears among the
  unique styles, whatever the other matches are (so also when it is unique in the document).
\<close>

theorem short_style_excluded:
  assumes "length style \<le> 100"
  shows "style \<notin> set (unique_styles h matches)
       \<and> style \<notin> set (unique_styles h (style_matches content))"
  using assms by (auto simp: unique_styles_eq)

theorem short_style_excluded_witness:
  "style_matches (u ''<p>x</p><style>p{color:red}</style>'') = [u ''p{color:red}'']
   \<and> length (u ''p{color:red}'') \<le> 100
   \<and> u ''p{color:red}'' \<notin> set (unique_styles length (style_matches (u ''<p>x</p><style>p{color:red}</style>'')))"
proof -
  have m: "style_matches (u ''<p>x</p><style>p{color:red}</style>'') = [u ''p{color:red}'']"
    by code_simp
  have l: "length (u ''p{color:red}'') \<le> 100" by simp
  from short_style_excluded[OF l, of length "[]" "u ''<p>x</p><style>p{color:red}</style>''"] m l
  show ?thesis by blast
qed

text \<open>
  C6, as amended: a text that occurs among the style blocks and is longer than 100 code points
  appears exactly once in the unique styles; the unique styles are the first occurrences, in
  document order, of the blocks longer than 100; the result does not depend on the hash order
  of the set (two runs give the same sequence) and deduplicating it again changes nothing.
\<close>

theorem style_dedup:
  "(style \<in> set matches \<and> 100 < length style \<longrightarrow> count_list (unique_styles h matches) style = 1)
   \<and> distinct (unique_styles h matches)
   \<and> unique_styles h matches = rev (remdups (rev (filter (\<lambda>s. 100 < length s) matches)))
   \<and> unique_styles h' matches = unique_styles h matches
   \<and> unique_styles h (unique_styles h matches) = unique_styles h matches"
proof -
  define r where "r = rev (remdups (rev (filter (\<lambda>s. 100 < length s) matches)))"
  have eq: "unique_styles g matches = r" for g by (simp add: r_def unique_styles_eq)
  have d: "distinct r" by (simp add: r_def)
  have s: "set r = {s \<in> set matches. 100 < length s}" by (auto simp: r_def)
  have f: "filter (\<lambda>s. 100 < length s) r = r" using s by (simp add: filter_id_conv)
  from d f have "unique_styles h r = r" by (simp add: unique_styles_eq distinct_remdups_id)
  moreover have "style \<in> set matches \<and> 100 < length style \<longrightarrow> count_list r style = 1"
    using count_list_distinct[OF d, of style] s by simp
  ultimately show ?thesis using d by (simp only: eq) (simp add: r_def)
qed

theorem style_dedup_witness:
  "u ''.slide-container{width:1280px;height:720px;position:relative;overflow:hidden;background:#ffffff;font-family:sans-serif}''
     \<in> set [u ''.slide-container{width:1280px;height:720px;position:relative;overflow:hidden;background:#ffffff;font-family:sans-serif}'',
            u ''p{}'',
            u ''.slide-container{width:1280px;height:720px;position:relative;overflow:hidden;background:#ffffff;font-family:sans-serif}'']
   \<and> 100 < length (u ''.slide-container{width:1280px;height:720px;position:relative;overflow:hidden;background:#ffffff;font-family:sans-serif}'')
   \<and> count_list (unique_styles length
         [u ''.slide-container{width:1280px;height:720px;position:relative;overflow:hidden;background:#ffffff;font-family:sans-serif}'',
          u ''p{}'',
          u ''.slide-container{width:1280px;height:720px;position:relative;overflow:hidden;background:#ffffff;font-family:sans-serif}''])
        (u ''.slide-container{width:1280px;height:720px;position:relative;overflow:hidden;background:#ffffff;font-family:sans-serif}'') = 1"
  using style_dedup[of
      "u ''.slide-container{width:1280px;height:720px;position:relative;overflow:hidden;background:#ffffff;font-family:sans-serif}''"
      "[u ''.slide-container{width:1280px;height:720px;position:relative;overflow:hidden;background:#ffffff;font-family:sans-serif}'',
        u ''p{}'',
        u ''.slide-container{width:1280px;height:720px;position:relative;overflow:hidden;background:#ffffff;font-family:sans-serif}'']"
      length length]
  by simp

text \<open>
  Without the length condition the statement fails: a short block that occurs twice appears
  not once but never.
\<close>

theorem style_dedup_short_counterexample:
  "count_list (style_matches (u ''<style>p{}</style><style>p{}</style>'')) (u ''p{}'') = 2
   \<and> count_list (unique_styles length (style_matches (u ''<style>p{}</style><style>p{}</style>''))) (u ''p{}'') = 0"
  by code_simp

section \<open>The entry point\<close>

text \<open>
  C8, as amended: when the input file does not exist, the run prints the error line that names
  the path, exits with status 1 and leaves the files as they were. It is not the only case in
  which the run aborts: with the input path present, the run also ends with status 1, through
  an exception that nothing catches and with the files as they were, when the input cannot be
  read as UTF-8 text (a directory, no read permission, bytes that do not decode), when
  \<open>html.unescape\<close> raises on a section, or when the output file cannot be opened for writing.
\<close>

theorem missing_input_file:
  "(\<not> path_exists w input_file \<longrightarrow>
      main h charref_sub w =
        (w\<lparr>stdout := stdout w @ [u ''Error: '' @ input_file @ u '' not found'']\<rparr>, 1)
      \<and> files (fst (main h charref_sub w)) = files w)
   \<and> (path_exists w input_file \<and> read_text w input_file = Inl e \<longrightarrow>
        main h charref_sub w = (w, 1))
   \<and> (read_text w input_file = Inr content \<and> slides_of charref_sub content = Inl e \<longrightarrow>
        main h charref_sub w = (w, 1))
   \<and> (read_text w input_file = Inr content \<and> slides_of charref_sub content = Inr slides
        \<and> write_text w output_file (output_html h content slides) = Inl e \<longrightarrow>
        snd (main h charref_sub w) = 1 \<and> files (fst (main h charref_sub w)) = files w)"
proof -
  have a: "\<not> path_exists w input_file \<longrightarrow>
      main h charref_sub w =
        (w\<lparr>stdout := stdout w @ [u ''Error: '' @ input_file @ u '' not found'']\<rparr>, 1)
      \<and> files (fst (main h charref_sub w)) = files w"
    by (simp add: main_def)
  have b: "path_exists w input_file \<and> read_text w input_file = Inl e \<longrightarrow>
        main h charref_sub w = (w, 1)"
    by (simp add: main_def extract_slides_def)
  have ex: "read_text w input_file = Inr content \<Longrightarrow> path_exists w input_file"
    by (auto simp: read_text_def path_exists_def split: option.splits)
  have c: "read_text w input_file = Inr content \<and> slides_of charref_sub content = Inl e \<longrightarrow>
        main h charref_sub w = (w, 1)"
    using ex by (auto simp: main_def extract_slides_def)
  have d: "read_text w input_file = Inr content \<and> slides_of charref_sub content = Inr slides
        \<and> write_text w output_file (output_html h content slides) = Inl e \<longrightarrow>
        snd (main h charref_sub w) = 1 \<and> files (fst (main h charref_sub w)) = files w"
  proof (intro impI, elim conjE)
    assume r: "read_text w input_file = Inr content"
      and s: "slides_of charref_sub content = Inr slides"
      and wr: "write_text w output_file (output_html h content slides) = Inl e"
    let ?w1 = "w\<lparr>stdout := stdout w @ [u ''Found '' @ str_of_nat (length slides) @ u '' slides'']\<rparr>"
    from wr have "write_text ?w1 output_file (output_html h content slides) = Inl e"
      by (simp only: write_text_stdout)
    with r s ex[OF r] show "snd (main h charref_sub w) = 1 \<and> files (fst (main h charref_sub w)) = files w"
      by (simp add: main_def extract_slides_def Let_def del: str_of_nat.simps)
  qed
  from a b c d show ?thesis by blast
qed

theorem missing_input_file_witness:
  \<open>\<not> path_exists \<lparr>files = Map.empty, creatable = True, stdout = []\<rparr> input_file
   \<and> main length Inr \<lparr>files = Map.empty, creatable = True, stdout = []\<rparr> =
       (\<lparr>files = Map.empty, creatable = True,
          stdout = [u ''Error: '' @ input_file @ u '' not found'']\<rparr>, 1)
   \<and> path_exists directory_world input_file
   \<and> read_text directory_world input_file = Inl IsADirectoryError
   \<and> main length Inr directory_world = (directory_world, 1)
   \<and> read_text \<lparr>files = [input_file \<mapsto> File True True (Some long_reference_document)],
          creatable = True, stdout = []\<rparr> input_file = Inr long_reference_document
   \<and> slides_of (charref_sub_limited id) long_reference_document = Inl ValueError
   \<and> snd (main length (charref_sub_limited id)
        \<lparr>files = [input_file \<mapsto> File True True (Some long_reference_document)],
         creatable = True, stdout = []\<rparr>) = 1
   \<and> read_text \<lparr>files = [input_file \<mapsto> File True True (Some (u ''<html></html>'')),
                           output_file \<mapsto> Directory],
          creatable = True, stdout = []\<rparr> input_file = Inr (u ''<html></html>'')
   \<and> slides_of Inr (u ''<html></html>'') = Inr []
   \<and> write_text \<lparr>files = [input_file \<mapsto> File True True (Some (u ''<html></html>'')),
                           output_file \<mapsto> Directory],
          creatable = True, stdout = []\<rparr> output_file
          (output_html length (u ''<html></html>'') []) = Inl IsADirectoryError
   \<and> snd (main length Inr
        \<lparr>files = [input_file \<mapsto> File True True (Some (u ''<html></html>'')),
                  output_file \<mapsto> Directory],
         creatable = True, stdout = []\<rparr>) = 1\<close>
proof -
  have ne: "input_file \<noteq> output_file" by (simp add: input_file_def output_file_def)
  have a: "\<not> path_exists \<lparr>files = Map.empty, creatable = True, stdout = []\<rparr> input_file"
    by (simp add: path_exists_def)
  have b: "path_exists directory_world input_file
     \<and> read_text directory_world input_file = Inl IsADirectoryError"
    by (simp add: path_exists_def read_text_def directory_world_def)
  have c: "read_text \<lparr>files = [input_file \<mapsto> File True True (Some long_reference_document)],
          creatable = True, stdout = []\<rparr> input_file = Inr long_reference_document"
    by (simp add: read_text_def)
  have d: "slides_of (charref_sub_limited id) long_reference_document = Inl ValueError"
    by (rule long_reference_document_raises)
  have e: "read_text \<lparr>files = [input_file \<mapsto> File True True (Some (u ''<html></html>'')),
                           output_file \<mapsto> Directory],
          creatable = True, stdout = []\<rparr> input_file = Inr (u ''<html></html>'')"
    using ne by (simp add: read_text_def del: list.map)
  have f: "slides_of Inr (u ''<html></html>'') = Inr []"
    by (simp add: eval_defs)
  have g: "write_text \<lparr>files = [input_file \<mapsto> File True True (Some (u ''<html></html>'')),
                           output_file \<mapsto> Directory],
          creatable = True, stdout = []\<rparr> output_file
          (output_html length (u ''<html></html>'') []) = Inl IsADirectoryError"
    by (simp add: write_text_def del: list.map)
  from missing_input_file[where w = "\<lparr>files = Map.empty, creatable = True, stdout = []\<rparr>"
      and h = length and charref_sub = Inr] a
  have 1: "main length Inr \<lparr>files = Map.empty, creatable = True, stdout = []\<rparr> =
       (\<lparr>files = Map.empty, creatable = True,
          stdout = [u ''Error: '' @ input_file @ u '' not found'']\<rparr>, 1)"
    by simp
  from missing_input_file[where w = directory_world and e = IsADirectoryError
      and h = length and charref_sub = Inr] b
  have 2: "main length Inr directory_world = (directory_world, 1)" by blast
  from missing_input_file[where w = "\<lparr>files = [input_file \<mapsto> File True True (Some long_reference_document)],
          creatable = True, stdout = []\<rparr>" and content = long_reference_document
      and charref_sub = "charref_sub_limited id" and e = ValueError and h = length] c d
  have 3: "snd (main length (charref_sub_limited id)
        \<lparr>files = [input_file \<mapsto> File True True (Some long_reference_document)],
         creatable = True, stdout = []\<rparr>) = 1"
    by simp
  from missing_input_file[where w = "\<lparr>files = [input_file \<mapsto> File True True (Some (u ''<html></html>'')),
                  output_file \<mapsto> Directory], creatable = True, stdout = []\<rparr>"
      and content = "u ''<html></html>''" and charref_sub = Inr and slides = "[]"
      and h = length and e = IsADirectoryError] e f g
  have 4: "snd (main length Inr
        \<lparr>files = [input_file \<mapsto> File True True (Some (u ''<html></html>'')),
                  output_file \<mapsto> Directory],
         creatable = True, stdout = []\<rparr>) = 1"
    by blast
  from a b c d e f g 1 2 3 4 show ?thesis by blast
qed

text \<open>
  That a missing input file is the only case in which a run aborts fails: in a world where the
  input path names a directory the path exists, and the run ends with status 1.
\<close>

theorem input_present_abort_counterexample:
  "path_exists directory_world input_file \<and> snd (main length Inr directory_world) = 1"
  by (simp add: directory_world_def main_def extract_slides_def path_exists_def read_text_def)

text \<open>
  C9: the output document is a function of the text of the input file alone: two runs that read
  the same text and run to their end have written the same document, the one assembled from the
  text and its slides, whatever the hash order of the set of seen styles in each run, the other
  files and the lines printed before.
\<close>

theorem deterministic_output:
  assumes "read_text w1 input_file = Inr content" and "read_text w2 input_file = Inr content"
  shows "(snd (main h1 charref_sub w1) = 0 \<longrightarrow>
            (\<exists>slides. slides_of charref_sub content = Inr slides
               \<and> file_text (fst (main h1 charref_sub w1)) output_file
                   = Some (output_html h1 content slides)))
       \<and> (snd (main h2 charref_sub w2) = 0 \<longrightarrow>
            (\<exists>slides. slides_of charref_sub content = Inr slides
               \<and> file_text (fst (main h2 charref_sub w2)) output_file
                   = Some (output_html h2 content slides)))
       \<and> output_html h1 content slides = output_html h2 content slides
       \<and> (snd (main h1 charref_sub w1) = 0 \<and> snd (main h2 charref_sub w2) = 0 \<longrightarrow>
            file_text (fst (main h1 charref_sub w1)) output_file
              = file_text (fst (main h2 charref_sub w2)) output_file)"
proof -
  have run: "snd (main h charref_sub w) = 0 \<longrightarrow>
            (\<exists>slides. slides_of charref_sub content = Inr slides
               \<and> file_text (fst (main h charref_sub w)) output_file
                   = Some (output_html h content slides))"
    if r: "read_text w input_file = Inr content" for h w
  proof (cases "slides_of charref_sub content")
    case (Inl e)
    with r show ?thesis by (simp add: main_def extract_slides_def)
  next
    case (Inr slides)
    let ?w1 = "w\<lparr>stdout := stdout w @ [u ''Found '' @ str_of_nat (length slides) @ u '' slides'']\<rparr>"
    show ?thesis
    proof (cases "write_text ?w1 output_file (output_html h content slides)")
      case (Inl e)
      with r Inr show ?thesis by (simp add: main_def extract_slides_def Let_def del: str_of_nat.simps)
    next
      case w2: (Inr w2)
      from write_text_files[OF w2] r Inr w2 show ?thesis
        by (simp add: main_def extract_slides_def Let_def file_text_def del: str_of_nat.simps)
    qed
  qed
  have eq: "output_html h1 content s = output_html h2 content s" for s
    by (rule output_html_hash)
  from run[OF assms(1), of h1] run[OF assms(2), of h2] eq show ?thesis by auto
qed

theorem deterministic_output_witness:
  \<open>read_text \<lparr>files = [input_file \<mapsto> File True True (Some (u ''<style>p{}</style><body><div><div class="slide-container">x</div></div>''))],
        creatable = True, stdout = []\<rparr> input_file
     = Inr (u ''<style>p{}</style><body><div><div class="slide-container">x</div></div>'')
   \<and> read_text \<lparr>files = [u ''notes.txt'' \<mapsto> Directory,
                           input_file \<mapsto> File True False (Some (u ''<style>p{}</style><body><div><div class="slide-container">x</div></div>''))],
        creatable = True, stdout = [u ''earlier'']\<rparr> input_file
     = Inr (u ''<style>p{}</style><body><div><div class="slide-container">x</div></div>'')
   \<and> snd (main length Inr
        \<lparr>files = [input_file \<mapsto> File True True (Some (u ''<style>p{}</style><body><div><div class="slide-container">x</div></div>''))],
         creatable = True, stdout = []\<rparr>) = 0
   \<and> snd (main sum_list Inr
        \<lparr>files = [u ''notes.txt'' \<mapsto> Directory,
                  input_file \<mapsto> File True False (Some (u ''<style>p{}</style><body><div><div class="slide-container">x</div></div>''))],
         creatable = True, stdout = [u ''earlier'']\<rparr>) = 0
   \<and> file_text (fst (main length Inr
        \<lparr>files = [input_file \<mapsto> File True True (Some (u ''<style>p{}</style><body><div><div class="slide-container">x</div></div>''))],
         creatable = True, stdout = []\<rparr>)) output_file
     = file_text (fst (main sum_list Inr
        \<lparr>files = [u ''notes.txt'' \<mapsto> Directory,
                  input_file \<mapsto> File True False (Some (u ''<style>p{}</style><body><div><div class="slide-container">x</div></div>''))],
         creatable = True, stdout = [u ''earlier'']\<rparr>)) output_file\<close>
proof -
  define doc where \<open>doc = u ''<style>p{}</style><body><div><div class="slide-container">x</div></div>''\<close>
  define w1 where "w1 = \<lparr>files = [input_file \<mapsto> File True True (Some doc)],
         creatable = True, stdout = []\<rparr>"
  define w2 where "w2 = \<lparr>files = [u ''notes.txt'' \<mapsto> Directory,
                  input_file \<mapsto> File True False (Some doc)],
         creatable = True, stdout = [u ''earlier'']\<rparr>"
  have ne: "input_file \<noteq> output_file" "u ''notes.txt'' \<noteq> output_file"
    by (simp_all add: input_file_def output_file_def)
  have r1: "read_text w1 input_file = Inr doc" by (simp add: w1_def read_text_def)
  have r2: "read_text w2 input_file = Inr doc" by (simp add: w2_def read_text_def)
  have s: \<open>slides_of Inr doc = Inr [u ''<div class="slide-container">x</div></div>'']\<close>
    unfolding doc_def by (simp add: eval_defs)
  have e1: "snd (main length Inr w1) = 0"
    using ne by (simp add: main_def extract_slides_def path_exists_def write_text_def r1 s)
      (simp add: w1_def)
  have e2: "snd (main sum_list Inr w2) = 0"
    using ne by (simp add: main_def extract_slides_def path_exists_def write_text_def r2 s)
      (simp add: w2_def)
  from deterministic_output[OF r1 r2, where ?h1.0 = length and charref_sub = Inr
      and ?h2.0 = sum_list] e1 e2
  have "file_text (fst (main length Inr w1)) output_file
     = file_text (fst (main sum_list Inr w2)) output_file"
    by blast
  with r1 r2 e1 e2 show ?thesis unfolding w1_def w2_def doc_def by blast
qed

section \<open>The slides\<close>

text \<open>
  C10: every slide of the document (every fragment that is wrapped into the output body) begins
  with the literal \<open><div class="slide-container\<close>: the slice starts at an occurrence of the
  marker in the unescaped section, reaches past it, and \<open>strip\<close> leaves its first code point
  in place.
\<close>

theorem slide_begins_with_marker:
  assumes "slides_of charref_sub content = Inr slides" and "slide \<in> set slides"
  shows \<open>prefix (u ''<div class="slide-container'') slide\<close>
proof -
  from slides_loop_slides[OF assms[unfolded slides_of_def]]
  obtain sec where "section_slide charref_sub sec = Inr (Some slide)" by auto
  from section_slide_shape[OF this] show ?thesis by auto
qed

theorem slide_begins_with_marker_witness:
  \<open>slides_of Inr (u ''<body><div id="w"><div class="slide-container">x</div></div>'')
     = Inr [u ''<div class="slide-container">x</div></div>'']
   \<and> u ''<div class="slide-container">x</div></div>''
       \<in> set [u ''<div class="slide-container">x</div></div>'']
   \<and> prefix (u ''<div class="slide-container'') (u ''<div class="slide-container">x</div></div>'')\<close>
proof -
  have e: \<open>slides_of Inr (u ''<body><div id="w"><div class="slide-container">x</div></div>'')
      = Inr [u ''<div class="slide-container">x</div></div>'']\<close>
    by (simp add: eval_defs)
  have m: \<open>u ''<div class="slide-container">x</div></div>''
       \<in> set [u ''<div class="slide-container">x</div></div>'']\<close>
    by (simp only: list.set insertI1)
  from e m slide_begins_with_marker[OF e m] show ?thesis by (intro conjI)
qed

section \<open>The section splitter\<close>

text \<open>
  C5: the document is split at every occurrence of \<open><body>\<close> (joining the pieces with the
  delimiter gives the document back, and no piece holds the delimiter); the piece before the
  first occurrence is discarded and only the sections that hold \<open>slide-container\<close> count for
  the slides; a document without the delimiter has no sections and no slides.
\<close>

theorem section_splitter:
  "str_join (u ''<body>'') (body_splits content) = content
   \<and> (\<forall>piece \<in> set (body_splits content). \<not> str_contains piece (u ''<body>''))
   \<and> slides_of charref_sub content =
       slides_loop charref_sub
         (filter (\<lambda>s. str_contains s (u ''slide-container'')) (drop 1 (body_splits content))) []
   \<and> (\<not> str_contains content (u ''<body>'') \<longrightarrow>
         drop 1 (body_splits content) = [] \<and> slides_of charref_sub content = Inr [])"
proof -
  have a: "str_join (u ''<body>'') (body_splits content) = content"
    using split_from_join[of 0 content "u ''<body>''"] by (simp add: body_splits_def str_split_def)
  have b: "\<forall>piece \<in> set (body_splits content). \<not> str_contains piece (u ''<body>'')"
    using split_from_pieces[of 0 content "u ''<body>''"]
    by (auto simp: body_splits_def str_split_def)
  have c: "slides_of charref_sub content =
       slides_loop charref_sub
         (filter (\<lambda>s. str_contains s (u ''slide-container'')) (drop 1 (body_splits content))) []"
    by (simp only: slides_of_def slides_loop_filter)
  have d: "\<not> str_contains content (u ''<body>'') \<longrightarrow>
         drop 1 (body_splits content) = [] \<and> slides_of charref_sub content = Inr []"
    by (simp add: slides_of_def body_splits_def str_split_no_sep)
  from a b c d show ?thesis by blast
qed

theorem section_splitter_witness:
  \<open>body_splits (u ''<head>slide-container</head><body><p>text</p><body><div><div class="slide-container">x</div></div>'')
     = [u ''<head>slide-container</head>'', u ''<p>text</p>'',
        u ''<div><div class="slide-container">x</div></div>'']
   \<and> \<not> str_contains (u ''<p>text</p>'') (u ''<body>'')
   \<and> slides_of Inr (u ''<head>slide-container</head><body><p>text</p><body><div><div class="slide-container">x</div></div>'')
     = slides_loop Inr [u ''<div><div class="slide-container">x</div></div>''] []
   \<and> \<not> str_contains (u ''<html><p>no sections</p></html>'') (u ''<body>'')
   \<and> slides_of Inr (u ''<html><p>no sections</p></html>'') = Inr []\<close>
proof -
  have b: \<open>body_splits (u ''<head>slide-container</head><body><p>text</p><body><div><div class="slide-container">x</div></div>'')
     = [u ''<head>slide-container</head>'', u ''<p>text</p>'',
        u ''<div><div class="slide-container">x</div></div>'']\<close>
    by (simp add: body_splits_def str_split_def split_from.simps str_find_def)
  have f: \<open>filter (\<lambda>s. str_contains s (u ''slide-container''))
        [u ''<p>text</p>'', u ''<div><div class="slide-container">x</div></div>'']
      = [u ''<div><div class="slide-container">x</div></div>'']\<close>
    by (simp add: str_contains_def str_find_def)
  have n: \<open>\<not> str_contains (u ''<html><p>no sections</p></html>'') (u ''<body>'')\<close>
    by (simp add: str_contains_def str_find_def)
  from section_splitter[of \<open>u ''<head>slide-container</head><body><p>text</p><body><div><div class="slide-container">x</div></div>''\<close> Inr]
       section_splitter[of \<open>u ''<html><p>no sections</p></html>''\<close> Inr] b f n
  show ?thesis by simp
qed

section \<open>The scan for the closing tag of the container\<close>

text \<open>
  C4, as amended: a section on which \<open>html.unescape\<close> returns and whose container is opened and
  never closed (from the opening tag of the container on, the nesting of the div tags never
  returns to zero, as when no closing tag follows at all) contributes no slide, and the loop
  goes on with the sections before and after it as if it were not there: the slides of the
  document are those of the other sections. (A section on which \<open>html.unescape\<close> raises ends
  the run.)
\<close>

theorem unclosed_container_skipped:
  assumes "html_unescape charref_sub sec = Inr slide_html"
    and "container_unclosed slide_html"
  shows "section_slide charref_sub sec = Inr None
       \<and> slides_loop charref_sub (before @ sec # after) slides
           = slides_loop charref_sub (before @ after) slides
       \<and> (drop 1 (body_splits content) = before @ sec # after \<longrightarrow>
            slides_of charref_sub content = slides_loop charref_sub (before @ after) [])"
proof -
  from assms(2) have \<open>scan_divs slide_html
      (str_find slide_html (u ''<div class="slide-container'') 0) 0 = -1\<close>
    by (intro scan_divs_unclosed) (simp_all add: container_unclosed_def Let_def)
  with assms have n: "section_slide charref_sub sec = Inr None"
    by (simp add: section_slide_def container_unclosed_def Let_def)
  from slides_loop_skip[OF n] n show ?thesis by (simp add: slides_of_def)
qed

theorem unclosed_container_skipped_witness:
  \<open>html_unescape Inr (u ''<div class="slide-container"><div>a</div><p>cut'')
     = Inr (u ''<div class="slide-container"><div>a</div><p>cut'')
   \<and> container_unclosed (u ''<div class="slide-container"><div>a</div><p>cut'')
   \<and> section_slide Inr (u ''<div class="slide-container"><div>a</div><p>cut'') = Inr None
   \<and> drop 1 (body_splits (u ''<html><body><div class="slide-container"><div>a</div><p>cut<body><div id="w"><div class="slide-container">b</div></div>''))
       = [] @ u ''<div class="slide-container"><div>a</div><p>cut''
            # [u ''<div id="w"><div class="slide-container">b</div></div>'']
   \<and> slides_of Inr (u ''<html><body><div class="slide-container"><div>a</div><p>cut<body><div id="w"><div class="slide-container">b</div></div>'')
       = Inr [u ''<div class="slide-container">b</div></div>'']\<close>
proof -
  have un: \<open>html_unescape Inr (u ''<div class="slide-container"><div>a</div><p>cut'')
     = Inr (u ''<div class="slide-container"><div>a</div><p>cut'')\<close>
    by (simp add: html_unescape_def)
  have h: \<open>container_unclosed (u ''<div class="slide-container"><div>a</div><p>cut'')\<close>
    by (simp add: container_unclosed_def str_find_def)
  have b: \<open>drop 1 (body_splits (u ''<html><body><div class="slide-container"><div>a</div><p>cut<body><div id="w"><div class="slide-container">b</div></div>''))
       = [] @ u ''<div class="slide-container"><div>a</div><p>cut''
            # [u ''<div id="w"><div class="slide-container">b</div></div>'']\<close>
    by (simp add: body_splits_def str_split_def split_from.simps str_find_def)
  have s: \<open>slides_loop Inr ([] @ [u ''<div id="w"><div class="slide-container">b</div></div>'']) []
       = Inr [u ''<div class="slide-container">b</div></div>'']\<close>
    by (simp add: eval_defs)
  from unclosed_container_skipped[OF un h, of "[]"
      \<open>[u ''<div id="w"><div class="slide-container">b</div></div>'']\<close> "[]"
      \<open>u ''<html><body><div class="slide-container"><div>a</div><p>cut<body><div id="w"><div class="slide-container">b</div></div>''\<close>]
    un h b s
  show ?thesis by (simp only: simp_thms)
qed

text \<open>
  Without the condition on \<open>html.unescape\<close> the statement fails. In the document below the
  first section has a container that is never closed, and a character reference of 4301
  digits; the second section alone gives a slide. On the first section \<open>html.unescape\<close> raises
  \<open>ValueError\<close>, which nothing catches: the run ends there, and the second section is not
  extracted.
\<close>

theorem unclosed_container_abort_counterexample:
  \<open>container_unclosed long_reference_section
   \<and> drop 1 (body_splits long_reference_document)
       = [long_reference_section, u ''<div id="w"><div class="slide-container">b</div></div>'']
   \<and> section_slide (charref_sub_limited id)
         (u ''<div id="w"><div class="slide-container">b</div></div>'')
       = Inr (Some (u ''<div class="slide-container">b</div></div>''))
   \<and> slides_of (charref_sub_limited id) long_reference_document = Inl ValueError\<close>
proof -
  have \<open>section_slide (charref_sub_limited id)
         (u ''<div id="w"><div class="slide-container">b</div></div>'')
       = Inr (Some (u ''<div class="slide-container">b</div></div>''))\<close>
    by (simp add: eval_defs charref_sub_limited_def)
  with long_reference_section_unclosed long_reference_document_sections
    long_reference_document_raises[of id]
  show ?thesis by (intro conjI)
qed

text \<open>
  C1 fails on the code. The scan starts at the opening tag of the container itself
  (\<open>pos = container_start\<close>), so the first step counts that tag as a nested one and
  \<open>div_count\<close> is 1, not 0, inside the container. The container's own closing tag only
  brings the count back to 0 and the scan goes on: a section that is exactly one balanced
  container yields no slide at all, and when more closing tags follow, the slice runs through
  the next unmatched one instead of the container's own.
\<close>

theorem balanced_container_not_returned:
  \<open>div_tags (u ''<div class="slide-container">x</div>'') = [True, False]
   \<and> section_slide charref_sub (u ''<div class="slide-container">x</div>'') = Inr None
   \<and> section_slide charref_sub (u ''<div class="slide-container">x</div><p>y</p></div>'')
       = Inr (Some (u ''<div class="slide-container">x</div><p>y</p></div>''))\<close>
  by (simp add: eval_defs)

text \<open>
  C2 fails on the code, for the same reason: the slide taken from a container that lies inside
  another div ends at the closing tag of that outer div, so it has one opening tag and two
  closing tags, and the nesting depth is negative at its end.
\<close>

theorem fragment_not_balanced:
  \<open>slides_of charref_sub (u ''<body><div id="w"><div class="slide-container">x</div></div>'')
     = Inr [u ''<div class="slide-container">x</div></div>'']
   \<and> div_tags (u ''<div class="slide-container">x</div></div>'') = [True, False, False]\<close>
  by (simp add: eval_defs)

text \<open>
  C3 fails on the code, for the same reason: for a document of two sections, each one balanced
  container with a nested div, the program finds no slide and prints \<open>Found 0 slides\<close>.
\<close>

theorem two_sections_no_slides:
  \<open>slides_of charref_sub (u ''<html><body><div class="slide-container"><div>a</div></div></body><body><div class="slide-container"><div>b</div></div></body></html>'') = Inr []
   \<and> stdout (fst (main h charref_sub
        \<lparr>files = [input_file \<mapsto> File True True (Some (u ''<html><body><div class="slide-container"><div>a</div></div></body><body><div class="slide-container"><div>b</div></div></body></html>''))],
         creatable = True, stdout = []\<rparr>))
     = [u ''Found 0 slides'', u ''Created slides-export-plagiat.html with 0 slides'', u ''Done!'']\<close>
proof -
  define doc where \<open>doc = u ''<html><body><div class="slide-container"><div>a</div></div></body><body><div class="slide-container"><div>b</div></div></body></html>''\<close>
  have ne: "input_file \<noteq> output_file" by (simp add: input_file_def output_file_def)
  have e: "slides_of charref_sub doc = Inr []"
    unfolding doc_def by (simp add: eval_defs)
  have "stdout (fst (main h charref_sub
        \<lparr>files = [input_file \<mapsto> File True True (Some doc)], creatable = True, stdout = []\<rparr>))
     = [u ''Found 0 slides'', u ''Created slides-export-plagiat.html with 0 slides'', u ''Done!'']"
    using ne by (simp add: run_defs e)
  with e show ?thesis unfolding doc_def by (rule conjI)
qed

end
